theory Spec2Isabelle
  imports Complex_Main "HOL-Library.Word"
begin

text \<open>
  The overlay engine of the canvas library: selection of segments by fill rule and
  operation (\<open>InResult\<close>), the endpoint records and their links (\<open>SplitAt\<close>, \<open>Reverse\<close>,
  \<open>AddPathEndpoints\<close>), the comparators of the sweep, the clamping of intersections in
  \<open>addIntersections\<close>, and \<open>mergeOverlapping\<close>. The functions are translated from the Go
  source; mutable sweep points are kept in a store and pointers are addresses into it.
\<close>

section \<open>Numbers of the engine\<close>

text \<open>
  Go's \<open>int\<close> (winding counts, segment ids) is a 64-bit two's complement integer:
  \<open>+\<close> wraps, comparisons are signed. \<open>uint8\<close> is an 8-bit word.
\<close>

type_synonym go_int = "64 word"
type_synonym uint8 = "8 word"

text \<open>
  A \<open>float64\<close> is a finite value, one of the two infinities, or NaN. Only the
  comparisons \<open>==\<close> (\<open>feq\<close>) and \<open><\<close> (\<open>flt\<close>) and \<open>math.Max\<close> are modelled on it.
  They are exact on finite values, so a finite value is kept as the rational number it
  denotes (the two zeros are one value, which is what \<open>==\<close> and \<open><\<close> of Go see). Every
  comparison with NaN is false.
\<close>

datatype f64 = Finite rat | PosInf | NegInf | NaN

fun feq :: "f64 \<Rightarrow> f64 \<Rightarrow> bool" where
  "feq (Finite a) (Finite b) = (a = b)"
| "feq PosInf PosInf = True"
| "feq NegInf NegInf = True"
| "feq _ _ = False"

fun flt :: "f64 \<Rightarrow> f64 \<Rightarrow> bool" where
  "flt (Finite a) (Finite b) = (a < b)"
| "flt (Finite a) PosInf = True"
| "flt NegInf (Finite b) = True"
| "flt NegInf PosInf = True"
| "flt _ _ = False"

definition IsNaN :: "f64 \<Rightarrow> bool" where
  "IsNaN v = (v = NaN)"

definition IsInf :: "f64 \<Rightarrow> bool" where
  "IsInf v = (v = PosInf \<or> v = NegInf)"


section \<open>Operations and fill rules\<close>

datatype pathOp = opSettle | opAND | opOR | opNOT | opXOR | opDIV

datatype FillRule = NonZero | EvenOdd

text \<open>
  Modelled from the spec: \<open>FillRule.Fills\<close> is declared outside the files at hand. The
  specification gives it as: \<open>NonZero\<close> fills iff the count is not zero, \<open>EvenOdd\<close>
  fills iff the count is odd.
\<close>

fun Fills :: "FillRule \<Rightarrow> go_int \<Rightarrow> bool" where
  "Fills NonZero w = (w \<noteq> 0)"
| "Fills EvenOdd w = odd (sint w)"

section \<open>Sweep points\<close>

text \<open>
  \<open>SweepPoint\<close> is the endpoint record of the source. Pointers to sweep points are
  addresses into a store, \<open>None\<close> being \<open>nil\<close>; a pointer to a status-tree node is
  kept as the number of the node.
\<close>

type_synonym addr = nat

record Point =
  X :: f64
  Y :: f64

record SweepPoint = Point +
  other :: "addr option"
  segment :: go_int
  node :: "nat option"
  windings :: go_int
  otherWindings :: go_int
  selfWindings :: go_int
  otherSelfWindings :: go_int
  prev :: "addr option"
  square :: go_int
  resultWindings :: go_int
  clipping :: bool
  "open" :: bool
  "end" :: bool
  left :: bool
  vertical :: bool
  increasing :: bool
  overlapped :: bool
  inResult :: uint8
  index :: go_int

subsection \<open>Selecting a segment for the result\<close>

text \<open>
  The last lines of \<open>InResult\<close>: an edge of a closed path is kept once if the filling
  changes between its two sides.
\<close>

definition keepIfChange :: "bool \<Rightarrow> bool \<Rightarrow> uint8" where
  "keepIfChange belowFills aboveFills = (if belowFills \<noteq> aboveFills then 1 else 0)"

definition InResult :: "'a SweepPoint_scheme \<Rightarrow> pathOp \<Rightarrow> FillRule \<Rightarrow> uint8" where
  "InResult s op fillRule =
    (let lowerWindings0 = windings s;
         lowerOtherWindings0 = otherWindings s;
         upperWindings0 = windings s + selfWindings s;
         upperOtherWindings0 = otherWindings s + otherSelfWindings s;
         lowerWindings = (if clipping s then lowerOtherWindings0 else lowerWindings0);
         lowerOtherWindings = (if clipping s then lowerWindings0 else lowerOtherWindings0);
         upperWindings = (if clipping s then upperOtherWindings0 else upperWindings0);
         upperOtherWindings = (if clipping s then upperWindings0 else upperOtherWindings0)
     in if open s then
          (case op of
             opSettle \<Rightarrow> 1
           | opOR \<Rightarrow> 1
           | opDIV \<Rightarrow> 1
           | opAND \<Rightarrow>
               (if Fills fillRule lowerOtherWindings \<or> Fills fillRule upperOtherWindings
                then 1 else 0)
           | opNOT \<Rightarrow>
               (if \<not> Fills fillRule lowerOtherWindings \<or> \<not> Fills fillRule upperOtherWindings
                then 1 else 0)
           | opXOR \<Rightarrow>
               (if \<not> Fills fillRule lowerOtherWindings \<or> \<not> Fills fillRule upperOtherWindings
                then 1 else 0))
        else
          (case op of
             opSettle \<Rightarrow>
               keepIfChange (Fills fillRule lowerWindings) (Fills fillRule upperWindings)
           | opAND \<Rightarrow>
               keepIfChange (Fills fillRule lowerWindings \<and> Fills fillRule lowerOtherWindings)
                 (Fills fillRule upperWindings \<and> Fills fillRule upperOtherWindings)
           | opOR \<Rightarrow>
               keepIfChange (Fills fillRule lowerWindings \<or> Fills fillRule lowerOtherWindings)
                 (Fills fillRule upperWindings \<or> Fills fillRule upperOtherWindings)
           | opNOT \<Rightarrow>
               keepIfChange (Fills fillRule lowerWindings \<and> \<not> Fills fillRule lowerOtherWindings)
                 (Fills fillRule upperWindings \<and> \<not> Fills fillRule upperOtherWindings)
           | opXOR \<Rightarrow>
               keepIfChange (Fills fillRule lowerWindings \<noteq> Fills fillRule lowerOtherWindings)
                 (Fills fillRule upperWindings \<noteq> Fills fillRule upperOtherWindings)
           | opDIV \<Rightarrow>
               (let belowFills = Fills fillRule lowerWindings;
                    aboveFills = Fills fillRule upperWindings
                in if belowFills \<and> aboveFills then 2
                   else if belowFills \<or> aboveFills then 1
                   else 0)))"

text \<open>
  The fill status of the two inputs on the two sides of a segment, in the words of the
  decision table: the counts of a segment are those of its own input first, so for a
  segment of the clipping input the subject's counts are the \<open>other\<close> ones.
\<close>

definition subjectBelow :: "'a SweepPoint_scheme \<Rightarrow> go_int" where
  "subjectBelow s = (if clipping s then otherWindings s else windings s)"

definition subjectAbove :: "'a SweepPoint_scheme \<Rightarrow> go_int" where
  "subjectAbove s =
     (if clipping s then otherWindings s + otherSelfWindings s else windings s + selfWindings s)"

definition clippingBelow :: "'a SweepPoint_scheme \<Rightarrow> go_int" where
  "clippingBelow s = (if clipping s then windings s else otherWindings s)"

definition clippingAbove :: "'a SweepPoint_scheme \<Rightarrow> go_int" where
  "clippingAbove s =
     (if clipping s then windings s + selfWindings s else otherWindings s + otherSelfWindings s)"

section \<open>The store of sweep points\<close>

text \<open>
  The sweep points live in a store, addressed by position. \<open>boPointPool.Get()\<close> hands
  out a sweep point that nothing refers to; the model allocates it at the end of the
  store. Dereferencing \<open>nil\<close> panics in Go: reading through a pointer gives \<open>None\<close>
  then, and the functions below pass it on.
\<close>

type_synonym store = "SweepPoint list"

text \<open>The panics of the code, as values.\<close>

datatype error =
    NilDereference
  | IndexOutOfRange
  | PathHasNaNOrInf
  | NonFlatPath
  | InvalidClose
  | ImpossibleReversal

text \<open>The queue is a slice of pointers to sweep points.\<close>

type_synonym SweepEvents = "addr list"

definition get :: "store \<Rightarrow> addr \<Rightarrow> SweepPoint option" where
  "get h a = (if a < length h then Some (h ! a) else None)"

definition deref :: "store \<Rightarrow> addr option \<Rightarrow> SweepPoint option" where
  "deref h p = (case p of None \<Rightarrow> None | Some a \<Rightarrow> get h a)"

definition upd :: "store \<Rightarrow> addr \<Rightarrow> (SweepPoint \<Rightarrow> SweepPoint) \<Rightarrow> store" where
  "upd h a f = h[a := f (h ! a)]"

definition pointOf :: "'a Point_scheme \<Rightarrow> Point" where
  "pointOf s = \<lparr>X = X s, Y = Y s\<rparr>"

text \<open>Go's \<open>==\<close> on two \<open>Point\<close> values compares both coordinates with \<open>==\<close>.\<close>

definition peq :: "Point \<Rightarrow> Point \<Rightarrow> bool" where
  "peq p q = (feq (X p) (X q) \<and> feq (Y p) (Y q))"

text \<open>
  Invariant 1 of the data model: every endpoint of the store has a partner, and the
  partner's partner is the endpoint itself.
\<close>

definition linked :: "store \<Rightarrow> addr \<Rightarrow> bool" where
  "linked h a =
     (case other (h ! a) of
        None \<Rightarrow> False
      | Some b \<Rightarrow> b < length h \<and> other (h ! b) = Some a)"

definition otherOther :: "store \<Rightarrow> bool" where
  "otherOther h = list_all (linked h) [0..<length h]"

section \<open>Comparators\<close>








section \<open>Splitting and reversing a segment\<close>

text \<open>
  \<open>SplitAt\<close> takes two sweep points from the pool, copies the two ends of the segment
  into them, moves both to \<open>z\<close> and relinks the four ends. The result is the pair
  \<open>(r, l)\<close> and the new store. A tuple assignment of Go evaluates its right-hand side and
  the pointers on its left first and then assigns from left to right.
\<close>

definition SplitAt :: "store \<Rightarrow> addr \<Rightarrow> Point \<Rightarrow> ((addr \<times> addr) \<times> store) option" where
  "SplitAt h s z =
     (case get h s of None \<Rightarrow> None | Some sv \<Rightarrow>
      case other sv of None \<Rightarrow> None | Some so \<Rightarrow>
      case get h so of None \<Rightarrow> None | Some ov \<Rightarrow>
      (let r = length h;
           l = length h + 1;
           h1 = h @ [ov, sv];
           h2 = upd (upd h1 r (\<lambda>e. e\<lparr>X := X z, Y := Y z\<rparr>)) l (\<lambda>e. e\<lparr>X := X z, Y := Y z\<rparr>);
           h3 = upd (upd h2 r (\<lambda>e. e\<lparr>end := False\<rparr>)) l (\<lambda>e. e\<lparr>end := False\<rparr>);
           h4 = upd (upd h3 r (\<lambda>e. e\<lparr>other := Some s\<rparr>)) so (\<lambda>e. e\<lparr>other := Some l\<rparr>);
           so' = other (h4 ! s);
           h5 = upd (upd h4 l (\<lambda>e. e\<lparr>other := so'\<rparr>)) s (\<lambda>e. e\<lparr>other := Some r\<rparr>);
           h6 = upd h5 l (\<lambda>e. e\<lparr>node := None\<rparr>)
       in Some ((r, l), h6)))"

definition Reverse :: "store \<Rightarrow> addr \<Rightarrow> store option" where
  "Reverse h s =
     (case get h s of None \<Rightarrow> None | Some sv \<Rightarrow>
      case other sv of None \<Rightarrow> None | Some so \<Rightarrow>
      case get h so of None \<Rightarrow> None | Some ov \<Rightarrow>
      (let h1 = upd (upd h s (\<lambda>e. e\<lparr>left := \<not> left sv\<rparr>)) so (\<lambda>e. e\<lparr>left := left sv\<rparr>);
           si = increasing (h1 ! s);
           oi = increasing (h1 ! so);
           h2 = upd (upd h1 s (\<lambda>e. e\<lparr>increasing := \<not> si\<rparr>)) so (\<lambda>e. e\<lparr>increasing := \<not> oi\<rparr>)
       in Some h2))"

section \<open>The event queue and the intersections of two segments\<close>







text \<open>
  The block of \<open>addIntersections\<close> for a right-endpoint event: every intersection is
  moved onto the event when it lies to the left of it, or below it at the same x, and a
  warning is printed when it has left one of the two segments.
\<close>

definition clampToEvent :: "SweepPoint \<Rightarrow> Point \<Rightarrow> Point" where
  "clampToEvent event z =
     (if flt (X z) (X event) then z\<lparr>X := X event\<rparr>
      else if feq (X z) (X event) \<and> flt (Y z) (Y event) then z\<lparr>Y := Y event\<rparr>
      else z)"







section \<open>Merging overlapping segments\<close>

text \<open>
  The condition of the loop of \<open>mergeOverlapping\<close> at a predecessor \<open>p\<close> that is not
  \<open>nil\<close>: \<open>Some True\<close> when the loop breaks there.
\<close>

definition mergeStops :: "store \<Rightarrow> addr \<Rightarrow> addr \<Rightarrow> bool option" where
  "mergeStops h s p =
     (case get h p of None \<Rightarrow> None | Some pv \<Rightarrow>
      case get h s of None \<Rightarrow> None | Some sv \<Rightarrow>
      if overlapped pv then Some True
      else if \<not> peq (pointOf sv) (pointOf pv) then Some True
      else
        (case deref h (other sv) of None \<Rightarrow> None | Some so \<Rightarrow>
         case deref h (other pv) of None \<Rightarrow> None | Some po \<Rightarrow>
         Some (\<not> peq (pointOf so) (pointOf po))))"

text \<open>The body of the loop: first the self windings of \<open>p\<close> are added to those of \<open>s\<close>.\<close>

definition mergeCombine :: "store \<Rightarrow> addr \<Rightarrow> addr \<Rightarrow> store" where
  "mergeCombine h s p =
     (if clipping (h ! s) = clipping (h ! p) then
        (let ha = upd h s (\<lambda>e. e\<lparr>selfWindings := selfWindings e + selfWindings (h ! p)\<rparr>)
         in upd ha s (\<lambda>e. e\<lparr>otherSelfWindings :=
                              otherSelfWindings e + otherSelfWindings (ha ! p)\<rparr>))
      else
        (let ha = upd h s (\<lambda>e. e\<lparr>selfWindings := selfWindings e + otherSelfWindings (h ! p)\<rparr>)
         in upd ha s (\<lambda>e. e\<lparr>otherSelfWindings :=
                              otherSelfWindings e + selfWindings (ha ! p)\<rparr>)))"

text \<open>Then the counts of \<open>p\<close> and the selection flags of \<open>p\<close> and its partner are zeroed.\<close>

definition mergeReset :: "store \<Rightarrow> addr \<Rightarrow> store option" where
  "mergeReset h p =
     (let h1 = upd h p (\<lambda>e. e\<lparr>windings := 0, selfWindings := 0, otherWindings := 0,
                               otherSelfWindings := 0\<rparr>)
      in case other (h1 ! p) of
           None \<Rightarrow> None
         | Some po \<Rightarrow>
             (if \<not> po < length h1 then None
              else Some (upd (upd h1 p (\<lambda>e. e\<lparr>inResult := 0\<rparr>)) po (\<lambda>e. e\<lparr>inResult := 0\<rparr>))))"

text \<open>Last, \<open>p\<close> is marked as handled.\<close>

definition mergeBody :: "store \<Rightarrow> addr \<Rightarrow> addr \<Rightarrow> store option" where
  "mergeBody h s p =
     (case mergeReset (mergeCombine h s p) p of
        None \<Rightarrow> None
      | Some h2 \<Rightarrow> Some (upd h2 p (\<lambda>e. e\<lparr>overlapped := True\<rparr>)))"

text \<open>
  The loop follows the \<open>prev\<close> pointers. Every turn marks one more segment as handled, so
  the number of segments that are not yet handled goes down and the loop ends, also on a
  chain of \<open>prev\<close> pointers that runs in a circle.
\<close>

definition notOverlapped :: "store \<Rightarrow> nat" where
  "notOverlapped h = card {a. a < length h \<and> \<not> overlapped (h ! a)}"

function mergeLoop :: "store \<Rightarrow> addr \<Rightarrow> addr option \<Rightarrow> (store \<times> addr option) option" where
  "mergeLoop h s pr =
     (case pr of
        None \<Rightarrow> Some (h, None)
      | Some p \<Rightarrow>
          (case mergeStops h s p of
             None \<Rightarrow> None
           | Some True \<Rightarrow> Some (h, Some p)
           | Some False \<Rightarrow>
               (case mergeBody h s p of
                  None \<Rightarrow> None
                | Some h' \<Rightarrow> mergeLoop h' s (prev (h' ! p)))))"
  by pat_completeness auto
termination
proof (relation "measure (\<lambda>(h, s, pr). notOverlapped h)")
  show "wf (measure (\<lambda>(h, s, pr). notOverlapped h))"
    by simp
next
  fix h :: store and s :: addr and pr :: "addr option" and p :: addr and stops :: bool and h' :: store
  assume "pr = Some p" and st: "mergeStops h s p = Some stops" and "stops = False"
    and body: "mergeBody h s p = Some h'"
  from st \<open>stops = False\<close> have p: "p < length h" "\<not> overlapped (h ! p)"
    by (auto simp: mergeStops_def get_def split: option.splits if_splits)
  have keep: "\<And>g a f b. (\<And>e. overlapped (f e) = overlapped e)
      \<Longrightarrow> overlapped (upd g a f ! b) = overlapped (g ! b)"
    unfolding upd_def
    by (metis list_update_beyond nth_list_update_eq nth_list_update_neq not_less)
  have len_upd: "\<And>g a f. length (upd g a f) = length g"
    by (simp add: upd_def)
  define h1 where "h1 = mergeCombine h s p"
  from body obtain h2 where h2: "mergeReset h1 p = Some h2"
    and h': "h' = upd h2 p (\<lambda>e. e\<lparr>overlapped := True\<rparr>)"
    by (auto simp: mergeBody_def h1_def split: option.splits)
  have l1: "length h1 = length h" and f1: "\<And>a. overlapped (h1 ! a) = overlapped (h ! a)"
    by (simp_all add: h1_def mergeCombine_def Let_def len_upd keep)
  from h2 have l2: "length h2 = length h1" and f2: "\<And>a. overlapped (h2 ! a) = overlapped (h1 ! a)"
    by (auto simp: mergeReset_def Let_def len_upd keep split: option.splits if_splits)
  have len: "length h' = length h"
    by (simp add: h' len_upd l1 l2)
  have flags: "\<And>a. a < length h \<Longrightarrow> overlapped (h' ! a) = (a = p \<or> overlapped (h ! a))"
    using p(1) by (auto simp: h' upd_def nth_list_update l1 l2 f1 f2)
  have eq: "{a. a < length h' \<and> \<not> overlapped (h' ! a)}
          = {a. a < length h \<and> \<not> overlapped (h ! a)} - {p}"
    using len flags by auto
  have mem: "p \<in> {a. a < length h \<and> \<not> overlapped (h ! a)}"
    using p by simp
  have fin: "finite {a. a < length h \<and> \<not> overlapped (h ! a)}"
    by simp
  have "notOverlapped h' < notOverlapped h"
    unfolding notOverlapped_def eq by (rule card_Diff1_less [OF fin mem])
  then show "((h', s, prev (h' ! p)), (h, s, pr)) \<in> measure (\<lambda>(h, s, pr). notOverlapped h)"
    by simp
qed


declare mergeLoop.simps [simp del]

text \<open>The merged windings of \<open>s\<close>, taken from the first true predecessor.\<close>

definition mergeWindings :: "store \<Rightarrow> addr \<Rightarrow> addr option \<Rightarrow> store" where
  "mergeWindings h s pr =
     (case pr of
        None \<Rightarrow> upd h s (\<lambda>e. e\<lparr>windings := 0, otherWindings := 0\<rparr>)
      | Some p \<Rightarrow>
          (if clipping (h ! s) = clipping (h ! p) then
             (let ha = upd h s (\<lambda>e. e\<lparr>windings := windings (h ! p) + selfWindings (h ! p)\<rparr>)
              in upd ha s (\<lambda>e. e\<lparr>otherWindings :=
                                   otherWindings (ha ! p) + otherSelfWindings (ha ! p)\<rparr>))
           else
             (let ha = upd h s (\<lambda>e. e\<lparr>windings :=
                                        otherWindings (h ! p) + otherSelfWindings (h ! p)\<rparr>)
              in upd ha s (\<lambda>e. e\<lparr>otherWindings :=
                                   windings (ha ! p) + selfWindings (ha ! p)\<rparr>))))"

definition mergeOverlapping :: "store \<Rightarrow> addr \<Rightarrow> pathOp \<Rightarrow> FillRule \<Rightarrow> store option" where
  "mergeOverlapping h s op fillRule =
     (case get h s of None \<Rightarrow> None | Some sv \<Rightarrow>
      if overlapped sv then Some h
      else
        (case mergeLoop h s (prev sv) of
           None \<Rightarrow> None
         | Some (h1, pr) \<Rightarrow>
             if pr = prev (h1 ! s) then Some h1
             else
               (let h2 = mergeWindings h1 s pr;
                    h3 = upd h2 s (\<lambda>e. e\<lparr>inResult := InResult e op fillRule\<rparr>)
                in case other (h3 ! s) of
                     None \<Rightarrow> None
                   | Some so \<Rightarrow>
                       (if \<not> so < length h3 then None
                        else
                          Some (upd (upd h3 so (\<lambda>e. e\<lparr>inResult := inResult (h3 ! s)\<rparr>))
                                  s (\<lambda>e. e\<lparr>prev := pr\<rparr>))))))"

text \<open>
  The fields of an endpoint that the loop condition reads: its position, its partner and
  whether it has been handled.
\<close>

definition geom :: "SweepPoint \<Rightarrow> f64 \<times> f64 \<times> addr option \<times> bool" where
  "geom e = (X e, Y e, other e, overlapped e)"

section \<open>Loading a path into the event queue\<close>

text \<open>
  A path is its flat command stream \<open>d\<close>. The command constants and \<open>Path.Closed\<close> are
  declared outside the files at hand; they are parameters of the model.
\<close>

record Path =
  d :: "f64 list"

record pathenv =
  LineToCmd :: f64
  CloseCmd :: f64
  Closed :: "Path \<Rightarrow> bool"

text \<open>
  Modelled from the spec: \<open>cmdLen\<close> is declared outside the files at hand. The path
  format is a flat stream of commands with their arguments; \<open>AddPathEndpoints\<close> calls
  \<open>cmdLen\<close> on line and close commands only, and such a command fills four cells
  (command, x, y, command): the function reads the end point from the cells \<open>i + n - 3\<close>
  and \<open>i + n - 2\<close>, enters its loop at cell 4, behind the first command, and sizes the
  queue by \<open>len(p.d) / 4\<close>.
\<close>

definition cmdLen :: "f64 \<Rightarrow> nat" where
  "cmdLen cmd = 4"

definition badCoordinate :: "f64 \<Rightarrow> bool" where
  "badCoordinate v = (IsNaN v \<or> IsInf v)"

definition newSweepPoint ::
    "Point \<Rightarrow> bool \<Rightarrow> bool \<Rightarrow> bool \<Rightarrow> go_int \<Rightarrow> bool \<Rightarrow> bool \<Rightarrow> bool \<Rightarrow> SweepPoint" where
  "newSweepPoint pt clip opn en seg lft incr vert =
     \<lparr>X = X pt, Y = Y pt, other = None, segment = seg, node = None,
      windings = 0, otherWindings = 0, selfWindings = 0, otherSelfWindings = 0,
      prev = None, square = 0, resultWindings = 0, clipping = clip, open = opn,
      end = en, left = lft, vertical = vert, increasing = incr, overlapped = False,
      inResult = 0, index = 0\<rparr>"

text \<open>
  One turn of the loop of \<open>AddPathEndpoints\<close>, at the command in cell \<open>i\<close>: it
  panics, or it gives the next cell, the next start point, the segment count, the store
  and the queue. The loop is entered at cell 4 of a stream that has more than four cells,
  so the cells 1, 2, \<open>len - 3\<close> and \<open>len - 2\<close> exist.
\<close>

definition AddPathEndpointsStep ::
    "pathenv \<Rightarrow> Path \<Rightarrow> bool \<Rightarrow> bool \<Rightarrow> nat \<Rightarrow> Point \<Rightarrow> go_int \<Rightarrow> store \<Rightarrow> SweepEvents
       \<Rightarrow> error + (nat \<times> Point \<times> go_int \<times> store \<times> SweepEvents)" where
  "AddPathEndpointsStep K p clip opn i start seg h q =
     (let cmd = d p ! i in
      if \<not> feq cmd (LineToCmd K) \<and> \<not> feq cmd (CloseCmd K) then Inl NonFlatPath
      else if feq cmd (CloseCmd K)
              \<and> (\<not> feq (d p ! (length (d p) - 3)) (d p ! 1)
                   \<or> \<not> feq (d p ! (length (d p) - 2)) (d p ! 2)) then
        Inl InvalidClose
      else
        (let n = cmdLen cmd in
         if \<not> i + n - 2 < length (d p) then Inl IndexOutOfRange
         else
           (let en = \<lparr>X = d p ! (i + n - 3), Y = d p ! (i + n - 2)\<rparr> in
            if badCoordinate (X en) \<or> badCoordinate (Y en) then Inl PathHasNaNOrInf
            else
              (let i' = i + n;
                   seg' = seg + 1
               in if peq start en then Inr (i', start, seg', h, q)
                  else
                    (let vert = feq (X start) (X en);
                         incr = (if vert then flt (Y start) (Y en) else flt (X start) (X en));
                         a = length h;
                         b = length h + 1;
                         av = newSweepPoint start clip opn (opn \<and> i' = 4 + n) seg' incr incr vert;
                         bv = newSweepPoint en clip opn (opn \<and> i' = length (d p)) seg'
                                (\<not> incr) incr vert;
                         h' = h @ [av\<lparr>other := Some b\<rparr>, bv\<lparr>other := Some a\<rparr>];
                         q' = q @ [a, b]
                     in Inr (i', en, seg', h', q'))))))"

text \<open>
  The loop over the commands. A panic leaves the store and the queue as they are at that
  moment; they are returned with the error.
\<close>

function AddPathEndpointsLoop ::
    "pathenv \<Rightarrow> Path \<Rightarrow> bool \<Rightarrow> bool \<Rightarrow> nat \<Rightarrow> Point \<Rightarrow> go_int \<Rightarrow> store \<Rightarrow> SweepEvents
       \<Rightarrow> (error + go_int) \<times> store \<times> SweepEvents" where
  "AddPathEndpointsLoop K p clip opn i start seg h q =
     (if \<not> i < length (d p) then (Inr seg, h, q)
      else
        (case AddPathEndpointsStep K p clip opn i start seg h q of
           Inl e \<Rightarrow> (Inl e, h, q)
         | Inr (i', start', seg', h', q') \<Rightarrow>
             AddPathEndpointsLoop K p clip opn i' start' seg' h' q'))"
  by pat_completeness auto
termination
  by (relation "measure (\<lambda>(K, p, clip, opn, i, start, seg, h, q). length (d p) - i)")
     (auto simp: AddPathEndpointsStep_def Let_def cmdLen_def split: if_splits)

declare AddPathEndpointsLoop.simps [simp del]

definition AddPathEndpoints ::
    "pathenv \<Rightarrow> SweepEvents \<Rightarrow> Path \<Rightarrow> go_int \<Rightarrow> bool \<Rightarrow> store
       \<Rightarrow> (error + go_int) \<times> store \<times> SweepEvents" where
  "AddPathEndpoints K q p seg clip h =
     (if length (d p) = 0 then (Inr seg, h, q)
      else if length (d p) < 3 then (Inl IndexOutOfRange, h, q)
      else
        (let opn = \<not> Closed K p;
             start = \<lparr>X = d p ! 1, Y = d p ! 2\<rparr>
         in if badCoordinate (X start) \<or> badCoordinate (Y start) then (Inl PathHasNaNOrInf, h, q)
            else
              (let opn' = (if opn \<and> feq (d p ! (length (d p) - 3)) (d p ! 1)
                                \<and> feq (d p ! (length (d p) - 2)) (d p ! 2)
                           then False else opn)
               in AddPathEndpointsLoop K p clip opn' 4 start seg h q)))"

subsection \<open>Words of the input policy\<close>




subsection \<open>Sample segments\<close>

text \<open>
  A closed subject segment with the clipping input filled below it, and an open subject
  segment that leaves the clipping input.
\<close>

definition closedSegment :: SweepPoint where
  "closedSegment = \<lparr>X = Finite 0, Y = Finite 0, other = Some 1, segment = 1, node = None,
     windings = 0, otherWindings = 1, selfWindings = 1, otherSelfWindings = 0,
     prev = None, square = 0, resultWindings = 0, clipping = False, open = False,
     end = False, left = True, vertical = False, increasing = True, overlapped = False,
     inResult = 0, index = 0\<rparr>"

definition openSegment :: SweepPoint where
  "openSegment = \<lparr>X = Finite 0, Y = Finite 0, other = Some 1, segment = 1, node = None,
     windings = 0, otherWindings = 1, selfWindings = 0, otherSelfWindings = -1,
     prev = None, square = 0, resultWindings = 0, clipping = False, open = True,
     end = True, left = True, vertical = False, increasing = True, overlapped = False,
     inResult = 0, index = 0\<rparr>"

text \<open>
  Sample values of the parameters: command constants, \<open>Closed\<close> as "the last cell is
  the close command", and arithmetic that is exact on finite operands and gives NaN
  otherwise. It stands for \<open>float64\<close> arithmetic in the samples below, where every
  result is a small dyadic number and no operation divides by zero.
\<close>

definition sampleCmds :: pathenv where
  "sampleCmds = \<lparr>LineToCmd = Finite 2, CloseCmd = Finite 32,
     Closed = (\<lambda>p. d p \<noteq> [] \<and> feq (last (d p)) (Finite 32))\<rparr>"





text \<open>The path (0,0), (1,0), (1,1), (0,0) without a close command.\<close>

definition openTriangle :: Path where
  "openTriangle = \<lparr>d = [Finite 1, Finite 0, Finite 0, Finite 1,
                        Finite 2, Finite 1, Finite 0, Finite 2,
                        Finite 2, Finite 1, Finite 1, Finite 2,
                        Finite 2, Finite 0, Finite 0, Finite 2]\<rparr>"

text \<open>
  A store with the segment (0,0) to (1,1) twice: the ends 0 and 1 belong to the clipping
  input, the ends 2 and 3 to the subject. The ends 0 and 2 are the left ones.
\<close>

definition overlapStore :: store where
  "overlapStore =
     [(newSweepPoint \<lparr>X = Finite 0, Y = Finite 0\<rparr> True False False 1 True True False)
        \<lparr>other := Some 1\<rparr>,
      (newSweepPoint \<lparr>X = Finite 1, Y = Finite 1\<rparr> True False False 1 False True False)
        \<lparr>other := Some 0\<rparr>,
      (newSweepPoint \<lparr>X = Finite 0, Y = Finite 0\<rparr> False False False 1 True True False)
        \<lparr>other := Some 3\<rparr>,
      (newSweepPoint \<lparr>X = Finite 1, Y = Finite 1\<rparr> False False False 1 False True False)
        \<lparr>other := Some 2\<rparr>]"

text \<open>
  A store with three segments on top of each other at the left end: the segment 0-1 of
  the subject lies below, the segment 2-3 of the clipping input and the segment 4-5 of
  the subject are both (0,0) to (1,1). The \<open>prev\<close> pointers lead from 4 to 2 to 0.
\<close>

definition stackedStore :: store where
  "stackedStore =
     [(newSweepPoint \<lparr>X = Finite 0, Y = Finite (- 1)\<rparr> False False False 1 True True False)
        \<lparr>other := Some 1, selfWindings := 1\<rparr>,
      (newSweepPoint \<lparr>X = Finite 1, Y = Finite (- 1)\<rparr> False False False 1 False True False)
        \<lparr>other := Some 0\<rparr>,
      (newSweepPoint \<lparr>X = Finite 0, Y = Finite 0\<rparr> True False False 1 True True False)
        \<lparr>other := Some 3, prev := Some 0, selfWindings := 1, otherWindings := 1, inResult := 1\<rparr>,
      (newSweepPoint \<lparr>X = Finite 1, Y = Finite 1\<rparr> True False False 1 False True False)
        \<lparr>other := Some 2, inResult := 1\<rparr>,
      (newSweepPoint \<lparr>X = Finite 0, Y = Finite 0\<rparr> False False False 2 True True False)
        \<lparr>other := Some 5, prev := Some 2, selfWindings := 1, windings := 1, otherWindings := 1\<rparr>,
      (newSweepPoint \<lparr>X = Finite 1, Y = Finite 1\<rparr> False False False 2 False True False)
        \<lparr>other := Some 4\<rparr>]"




section \<open>Theorems\<close>

lemmas fill_sides_defs = subjectBelow_def subjectAbove_def clippingBelow_def clippingAbove_def

subsection \<open>The selection tables\<close>

text \<open>
  C1. For a closed segment, with A and A' the fill status of the subject below and above
  the segment and B and B' that of the clipping input, \<open>InResult\<close> is not zero exactly
  when the decision table says so: Settle iff A differs from A'; Intersect iff (A and B)
  differs from (A' and B'); Union iff (A or B) differs from (A' or B'); Difference iff
  (A and not B) differs from (A' and not B'); Xor iff (A xor B) differs from (A' xor B').
  For Subdivide it returns 2 if the subject fills both sides, 1 if it fills exactly one
  side, and 0 otherwise.
\<close>

theorem InResult_closed_table:
  assumes "\<not> open s"
  shows "(InResult s opSettle fr \<noteq> 0 \<longleftrightarrow>
            Fills fr (subjectBelow s) \<noteq> Fills fr (subjectAbove s))
       \<and> (InResult s opAND fr \<noteq> 0 \<longleftrightarrow>
            (Fills fr (subjectBelow s) \<and> Fills fr (clippingBelow s))
              \<noteq> (Fills fr (subjectAbove s) \<and> Fills fr (clippingAbove s)))
       \<and> (InResult s opOR fr \<noteq> 0 \<longleftrightarrow>
            (Fills fr (subjectBelow s) \<or> Fills fr (clippingBelow s))
              \<noteq> (Fills fr (subjectAbove s) \<or> Fills fr (clippingAbove s)))
       \<and> (InResult s opNOT fr \<noteq> 0 \<longleftrightarrow>
            (Fills fr (subjectBelow s) \<and> \<not> Fills fr (clippingBelow s))
              \<noteq> (Fills fr (subjectAbove s) \<and> \<not> Fills fr (clippingAbove s)))
       \<and> (InResult s opXOR fr \<noteq> 0 \<longleftrightarrow>
            (Fills fr (subjectBelow s) \<noteq> Fills fr (clippingBelow s))
              \<noteq> (Fills fr (subjectAbove s) \<noteq> Fills fr (clippingAbove s)))
       \<and> InResult s opDIV fr =
            (if Fills fr (subjectBelow s) \<and> Fills fr (subjectAbove s) then 2
             else if Fills fr (subjectBelow s) \<or> Fills fr (subjectAbove s) then 1
             else 0)"
  using assms by (simp add: InResult_def keepIfChange_def fill_sides_defs Let_def)

theorem InResult_closed_table_witness:
  "\<not> open closedSegment
   \<and> InResult closedSegment opSettle NonZero \<noteq> 0
   \<and> InResult closedSegment opAND NonZero \<noteq> 0
   \<and> \<not> InResult closedSegment opOR NonZero \<noteq> 0
   \<and> \<not> InResult closedSegment opNOT NonZero \<noteq> 0
   \<and> InResult closedSegment opXOR NonZero \<noteq> 0
   \<and> InResult closedSegment opDIV NonZero = 1"
proof -
  have closed: "\<not> open closedSegment"
    by (simp add: closedSegment_def)
  show ?thesis
    using closed InResult_closed_table [OF closed, of NonZero]
    by (simp add: closedSegment_def fill_sides_defs)
qed

text \<open>
  C2. For an open segment of the subject, \<open>InResult\<close> is 1 for Settle, Union and
  Subdivide; for Intersect it is 1 exactly when the clipping input fills below or above
  the segment; for Difference and Xor it is 1 exactly when the clipping input does not
  fill below or does not fill above; in every other case it is 0.
\<close>

theorem InResult_open_subject:
  assumes "open s" and "\<not> clipping s"
  shows "InResult s opSettle fr = 1 \<and> InResult s opOR fr = 1 \<and> InResult s opDIV fr = 1
       \<and> InResult s opAND fr =
            (if Fills fr (clippingBelow s) \<or> Fills fr (clippingAbove s) then 1 else 0)
       \<and> InResult s opNOT fr =
            (if \<not> Fills fr (clippingBelow s) \<or> \<not> Fills fr (clippingAbove s) then 1 else 0)
       \<and> InResult s opXOR fr =
            (if \<not> Fills fr (clippingBelow s) \<or> \<not> Fills fr (clippingAbove s) then 1 else 0)"
  using assms by (simp add: InResult_def keepIfChange_def fill_sides_defs Let_def)

theorem InResult_open_subject_witness:
  "open openSegment \<and> \<not> clipping openSegment
   \<and> InResult openSegment opSettle NonZero = 1
   \<and> InResult openSegment opOR NonZero = 1
   \<and> InResult openSegment opDIV NonZero = 1
   \<and> InResult openSegment opAND NonZero = 1
   \<and> InResult openSegment opNOT NonZero = 1
   \<and> InResult openSegment opXOR NonZero = 1"
proof -
  have op: "open openSegment" and subj: "\<not> clipping openSegment"
    by (simp_all add: openSegment_def)
  show ?thesis
    using op subj InResult_open_subject [OF op subj, of NonZero]
    by (simp add: openSegment_def fill_sides_defs)
qed

subsection \<open>The symmetric link between the two ends of a segment\<close>

lemma otherOther_iff: "otherOther h \<longleftrightarrow> (\<forall>a<length h. linked h a)"
  by (auto simp: otherOther_def list_all_iff)

lemma linked_iff:
  "linked h a \<longleftrightarrow> (\<exists>b. other (h ! a) = Some b \<and> b < length h \<and> other (h ! b) = Some a)"
  by (auto simp: linked_def split: option.splits)

lemma SplitAt_otherOther:
  assumes inv: "otherOther h" and split: "SplitAt h s z = Some ((r, l), h')"
  shows "otherOther h'"
proof -
  from split obtain sv so ov where
    s: "s < length h" "sv = h ! s" and so: "other (h ! s) = Some so"
    and so_in: "so < length h" "ov = h ! so"
    by (auto simp: SplitAt_def get_def split: option.splits if_splits)
  from inv s so have backlink: "other (h ! so) = Some s"
    by (auto simp: otherOther_iff linked_iff)
  have all: "\<And>a. a < length h \<Longrightarrow>
      \<exists>b. other (h ! a) = Some b \<and> b < length h \<and> other (h ! b) = Some a"
    using inv by (auto simp: otherOther_iff linked_iff)
  show ?thesis
    using split s so so_in backlink all
    apply (simp add: SplitAt_def get_def Let_def upd_def otherOther_iff linked_iff)
    apply (auto simp: nth_append nth_list_update less_Suc_eq split: if_splits)
    subgoal for a using all [of a] by (metis option.inject)
    subgoal for a using all [of a] by (metis option.inject)
    done
qed

lemma Reverse_otherOther:
  assumes inv: "otherOther h" and rev: "Reverse h s = Some h'"
  shows "otherOther h'"
proof -
  from rev obtain so where
    s: "s < length h" and so: "other (h ! s) = Some so" and so_in: "so < length h"
    by (auto simp: Reverse_def get_def split: option.splits if_splits)
  have all: "\<And>a. a < length h \<Longrightarrow>
      \<exists>b. other (h ! a) = Some b \<and> b < length h \<and> other (h ! b) = Some a"
    using inv by (auto simp: otherOther_iff linked_iff)
  have len: "length h' = length h"
    using rev s so so_in by (auto simp: Reverse_def get_def Let_def upd_def)
  have same: "\<And>a. a < length h \<Longrightarrow> other (h' ! a) = other (h ! a)"
    using rev s so so_in
    by (auto simp: Reverse_def get_def Let_def upd_def nth_list_update)
  show ?thesis
    unfolding otherOther_iff linked_iff len
    by (metis all same)
qed

lemma otherOther_append_pair:
  assumes "otherOther h"
  shows "otherOther (h @ [av\<lparr>other := Some (Suc (length h))\<rparr>, bv\<lparr>other := Some (length h)\<rparr>])"
  using assms
  by (auto simp: otherOther_iff linked_iff nth_append less_Suc_eq)

lemma AddPathEndpointsStep_otherOther:
  "otherOther h
     \<Longrightarrow> AddPathEndpointsStep K p clip opn i start seg h q = Inr (i', start', seg', h', q')
     \<Longrightarrow> otherOther h'"
  by (auto simp: AddPathEndpointsStep_def Let_def otherOther_append_pair split: if_splits)

lemma AddPathEndpointsLoop_otherOther:
  "otherOther h \<Longrightarrow> AddPathEndpointsLoop K p clip opn i start seg h q = (res, h', q')
     \<Longrightarrow> otherOther h'"
proof (induction K p clip opn i start seg h q rule: AddPathEndpointsLoop.induct)
  case (1 K p clip opn i start seg h q)
  show ?case
  proof (cases "i < length (d p)")
    case False
    with "1.prems" show ?thesis by (simp add: AddPathEndpointsLoop.simps)
  next
    case True
    show ?thesis
    proof (cases "AddPathEndpointsStep K p clip opn i start seg h q")
      case (Inl e)
      with True "1.prems" show ?thesis by (simp add: AddPathEndpointsLoop.simps)
    next
      case (Inr st)
      obtain i' start' seg' h1 q1 where st: "st = (i', start', seg', h1, q1)"
        by (cases st) auto
      have "otherOther h1"
        using AddPathEndpointsStep_otherOther "1.prems"(1) Inr st by blast
      moreover have "AddPathEndpointsLoop K p clip opn i' start' seg' h1 q1 = (res, h', q')"
        using "1.prems"(2) True Inr st by (simp add: AddPathEndpointsLoop.simps)
      ultimately show ?thesis
        using "1.IH" [OF _ Inr [unfolded st]] True by simp
    qed
  qed
qed

lemma AddPathEndpoints_otherOther:
  "otherOther h \<Longrightarrow> AddPathEndpoints K q p seg clip h = (res, h', q') \<Longrightarrow> otherOther h'"
  by (auto simp: AddPathEndpoints_def Let_def split: if_splits
           dest: AddPathEndpointsLoop_otherOther)

text \<open>
  C3. In a store where every endpoint \<open>e\<close> has \<open>e.other.other == e\<close>, the same holds
  after \<open>AddPathEndpoints\<close> has created the linked endpoints of a path (also when it
  panics part of the way), after \<open>SplitAt\<close> has split a segment at a point, and after
  \<open>Reverse\<close> has reversed a segment.
\<close>

theorem other_link_preserved:
  assumes "otherOther h"
  shows "(\<forall>K q p seg clip res h' q'.
            AddPathEndpoints K q p seg clip h = (res, h', q') \<longrightarrow> otherOther h')
       \<and> (\<forall>s z r l h'. SplitAt h s z = Some ((r, l), h') \<longrightarrow> otherOther h')
       \<and> (\<forall>s h'. Reverse h s = Some h' \<longrightarrow> otherOther h')"
  using assms AddPathEndpoints_otherOther SplitAt_otherOther Reverse_otherOther
  by blast

theorem other_link_preserved_witness:
  "otherOther overlapStore
   \<and> otherOther (fst (snd (AddPathEndpoints sampleCmds [] openTriangle 0 False overlapStore)))
   \<and> (\<exists>h'. SplitAt overlapStore 0 \<lparr>X = Finite (1 / 2), Y = Finite (1 / 2)\<rparr> = Some ((4, 5), h')
            \<and> otherOther h')
   \<and> (\<exists>h'. Reverse overlapStore 2 = Some h' \<and> otherOther h')"
proof -
  have inv: "otherOther overlapStore"
    by (simp add: otherOther_def linked_def overlapStore_def newSweepPoint_def upt_rec)
  obtain res h1 q1 where
    add: "AddPathEndpoints sampleCmds [] openTriangle 0 False overlapStore = (res, h1, q1)"
    by (cases "AddPathEndpoints sampleCmds [] openTriangle 0 False overlapStore") auto
  have "\<exists>h'. SplitAt overlapStore 0 \<lparr>X = Finite (1 / 2), Y = Finite (1 / 2)\<rparr> = Some ((4, 5), h')"
    by (simp add: SplitAt_def get_def Let_def overlapStore_def newSweepPoint_def)
  then obtain h2 where
    split: "SplitAt overlapStore 0 \<lparr>X = Finite (1 / 2), Y = Finite (1 / 2)\<rparr> = Some ((4, 5), h2)"
    by blast
  have "\<exists>h'. Reverse overlapStore 2 = Some h'"
    by (simp add: Reverse_def get_def Let_def overlapStore_def newSweepPoint_def)
  then obtain h3 where rev: "Reverse overlapStore 2 = Some h3"
    by blast
  from other_link_preserved [OF inv] add split rev
  have "otherOther h1" "otherOther h2" "otherOther h3"
    by blast+
  with inv add split rev show ?thesis
    by simp
qed

subsection \<open>Segments that coincide\<close>




subsection \<open>Paths with a coordinate that is not finite\<close>







subsection \<open>Open paths that end where they start\<close>

lemma Step_created:
  assumes "AddPathEndpointsStep K p clip opn i start seg h q = Inr (i', start', seg', h', q')"
  shows "\<exists>new. h' = h @ new \<and> q' = q @ [length h..<length h'] \<and> list_all (\<lambda>e. open e = opn) new"
  using assms
  by (auto simp: AddPathEndpointsStep_def Let_def newSweepPoint_def upt_rec [of "length h"]
                 upt_rec [of "Suc (length h)"]
           split: if_splits)

lemma Loop_created:
  "AddPathEndpointsLoop K p clip opn i start seg h q = (res, h', q')
     \<Longrightarrow> \<exists>new. h' = h @ new \<and> q' = q @ [length h..<length h'] \<and> list_all (\<lambda>e. open e = opn) new"
proof (induction K p clip opn i start seg h q rule: AddPathEndpointsLoop.induct)
  case (1 K p clip opn i start seg h q)
  show ?case
  proof (cases "i < length (d p)")
    case False
    with "1.prems" show ?thesis by (simp add: AddPathEndpointsLoop.simps)
  next
    case True
    show ?thesis
    proof (cases "AddPathEndpointsStep K p clip opn i start seg h q")
      case (Inl e)
      with True "1.prems" show ?thesis by (simp add: AddPathEndpointsLoop.simps)
    next
      case (Inr st)
      obtain i' start' seg' h1 q1 where st: "st = (i', start', seg', h1, q1)"
        by (cases st) auto
      from Step_created [OF Inr [unfolded st]] obtain new1 where
        new1: "h1 = h @ new1" "q1 = q @ [length h..<length h1]" "list_all (\<lambda>e. open e = opn) new1"
        by blast
      have "AddPathEndpointsLoop K p clip opn i' start' seg' h1 q1 = (res, h', q')"
        using "1.prems" True Inr st by (simp add: AddPathEndpointsLoop.simps)
      from "1.IH" [OF _ Inr [unfolded st] refl refl refl refl this] True obtain new2 where
        new2: "h' = h1 @ new2" "q' = q1 @ [length h1..<length h']" "list_all (\<lambda>e. open e = opn) new2"
        by auto
      have len: "length h' = length h1 + length new2" "length h \<le> length h1"
        using new1(1) new2(1) by simp_all
      have "[length h..<length h1] @ [length h1..<length h'] = [length h..<length h']"
        unfolding len(1) by (rule upt_add_eq_append [symmetric]) (rule len(2))
      then show ?thesis
        using new1 new2 by (intro exI [of _ "new1 @ new2"]) simp
    qed
  qed
qed

text \<open>
  C10. For a path that is not closed and whose last point is equal to its first point,
  \<open>AddPathEndpoints\<close> leaves the events of the store as they are, and every event it
  creates (the new addresses, which are the ones it appends to the queue) has
  \<open>open = false\<close>, so that \<open>InResult\<close> selects its segments as closed ones.
\<close>

theorem coinciding_ends_closed:
  assumes "\<not> Closed K p"
    and "feq (d p ! (length (d p) - 3)) (d p ! 1)"
    and "feq (d p ! (length (d p) - 2)) (d p ! 2)"
    and "AddPathEndpoints K q p seg clip h = (res, h', q')"
  shows "take (length h) h' = h \<and> q' = q @ [length h..<length h']
       \<and> (\<forall>a. length h \<le> a \<and> a < length h' \<longrightarrow> \<not> open (h' ! a))"
proof -
  have "\<exists>new. h' = h @ new \<and> q' = q @ [length h..<length h'] \<and> list_all (\<lambda>e. open e = False) new"
    using assms
    by (auto simp: AddPathEndpoints_def Let_def split: if_splits dest: Loop_created)
  then show ?thesis
    by (auto simp: nth_append list_all_length)
qed

theorem coinciding_ends_closed_witness:
  "\<not> Closed sampleCmds openTriangle
   \<and> feq (d openTriangle ! (length (d openTriangle) - 3)) (d openTriangle ! 1)
   \<and> feq (d openTriangle ! (length (d openTriangle) - 2)) (d openTriangle ! 2)
   \<and> (\<exists>h'. AddPathEndpoints sampleCmds [] openTriangle 0 False [] = (Inr 3, h', [0, 1, 2, 3, 4, 5])
          \<and> length h' = 6 \<and> list_all (\<lambda>e. \<not> open e) h')"
proof -
  have hyps: "\<not> Closed sampleCmds openTriangle"
    "feq (d openTriangle ! (length (d openTriangle) - 3)) (d openTriangle ! 1)"
    "feq (d openTriangle ! (length (d openTriangle) - 2)) (d openTriangle ! 2)"
    by (simp_all add: sampleCmds_def openTriangle_def)
  have "\<exists>h'. AddPathEndpoints sampleCmds [] openTriangle 0 False [] = (Inr 3, h', [0, 1, 2, 3, 4, 5])
           \<and> length h' = 6"
    by (simp add: AddPathEndpoints_def AddPathEndpointsLoop.simps AddPathEndpointsStep_def
         openTriangle_def sampleCmds_def badCoordinate_def IsNaN_def IsInf_def cmdLen_def peq_def
         Let_def newSweepPoint_def)
  then obtain h' where
    run: "AddPathEndpoints sampleCmds [] openTriangle 0 False [] = (Inr 3, h', [0, 1, 2, 3, 4, 5])"
    and len: "length h' = 6"
    by blast
  from coinciding_ends_closed [OF hyps run] have "list_all (\<lambda>e. \<not> open e) h'"
    by (simp add: list_all_length)
  with hyps run len show ?thesis
    by simp
qed


subsection \<open>Merging twice\<close>

lemma length_upd [simp]: "length (upd g a f) = length g"
  by (simp add: upd_def)

lemma geom_upd:
  "(\<And>e. geom (f e) = geom e) \<Longrightarrow> geom (upd g a f ! b) = geom (g ! b)"
  unfolding upd_def
  by (metis list_update_beyond nth_list_update_eq nth_list_update_neq not_less)

lemma geom_fields [simp]:
  "geom (e\<lparr>windings := w\<rparr>) = geom e" "geom (e\<lparr>otherWindings := w\<rparr>) = geom e"
  "geom (e\<lparr>inResult := r\<rparr>) = geom e" "geom (e\<lparr>prev := q\<rparr>) = geom e"
  by (simp_all add: geom_def)

lemma mergeBody_length: "mergeBody h s p = Some h' \<Longrightarrow> length h' = length h"
  by (auto simp: mergeBody_def mergeReset_def mergeCombine_def Let_def
           split: option.splits if_splits)

lemma mergeStops_frame:
  assumes "length h' = length h" and "\<And>a. geom (h' ! a) = geom (h ! a)"
  shows "mergeStops h' s p = mergeStops h s p"
proof -
  have f: "\<And>a. X (h' ! a) = X (h ! a)" "\<And>a. Y (h' ! a) = Y (h ! a)"
    "\<And>a. other (h' ! a) = other (h ! a)" "\<And>a. overlapped (h' ! a) = overlapped (h ! a)"
    using assms(2) by (simp_all add: geom_def)
  show ?thesis
    by (simp add: mergeStops_def get_def deref_def assms(1) f pointOf_def
             split: option.splits)
qed

lemma mergeLoop_stops:
  "mergeLoop h s pr = Some (h1, pr')
     \<Longrightarrow> (case pr' of None \<Rightarrow> True | Some p \<Rightarrow> mergeStops h1 s p = Some True)"
proof (induction h s pr rule: mergeLoop.induct)
  case (1 h s pr)
  show ?case
  proof (cases pr)
    case None
    with "1.prems" show ?thesis by (simp add: mergeLoop.simps)
  next
    case (Some p)
    show ?thesis
    proof (cases "mergeStops h s p")
      case None
      with Some "1.prems" show ?thesis by (simp add: mergeLoop.simps)
    next
      case st: (Some stops)
      show ?thesis
      proof (cases stops)
        case True
        with Some st "1.prems" show ?thesis by (auto simp: mergeLoop.simps)
      next
        case False
        show ?thesis
        proof (cases "mergeBody h s p")
          case None
          with Some st False "1.prems" show ?thesis by (simp add: mergeLoop.simps)
        next
          case body: (Some h')
          have "mergeLoop h' s (prev (h' ! p)) = Some (h1, pr')"
            using Some st False body "1.prems" by (simp add: mergeLoop.simps)
          with "1.IH" [OF Some st _ body] False show ?thesis by simp
        qed
      qed
    qed
  qed
qed

lemma mergeLoop_at_stop:
  "(case pr of None \<Rightarrow> True | Some p \<Rightarrow> mergeStops h s p = Some True)
     \<Longrightarrow> mergeLoop h s pr = Some (h, pr)"
  by (cases pr) (simp_all add: mergeLoop.simps)

lemma mergeLoop_length:
  "mergeLoop h s pr = Some (h1, pr') \<Longrightarrow> length h1 = length h"
proof (induction h s pr rule: mergeLoop.induct)
  case (1 h s pr)
  show ?case
  proof (cases pr)
    case None
    with "1.prems" show ?thesis by (simp add: mergeLoop.simps)
  next
    case (Some p)
    show ?thesis
    proof (cases "mergeStops h s p")
      case None
      with Some "1.prems" show ?thesis by (simp add: mergeLoop.simps)
    next
      case st: (Some stops)
      show ?thesis
      proof (cases stops)
        case True
        with Some st "1.prems" show ?thesis by (auto simp: mergeLoop.simps)
      next
        case False
        show ?thesis
        proof (cases "mergeBody h s p")
          case None
          with Some st False "1.prems" show ?thesis by (simp add: mergeLoop.simps)
        next
          case body: (Some h')
          have "mergeLoop h' s (prev (h' ! p)) = Some (h1, pr')"
            using Some st False body "1.prems" by (simp add: mergeLoop.simps)
          with "1.IH" [OF Some st _ body] False mergeBody_length [OF body]
          show ?thesis by simp
        qed
      qed
    qed
  qed
qed

lemma mergeWindings_frame:
  "length (mergeWindings h s pr) = length h" "geom (mergeWindings h s pr ! a) = geom (h ! a)"
  by (simp_all add: mergeWindings_def Let_def geom_upd split: option.splits)

text \<open>
  C8. When a call of \<open>mergeOverlapping\<close> on \<open>s\<close> has returned, a second call with the
  same operation and fill rule returns as well and leaves the whole store as the first
  call left it: the windings, other windings, self windings and other self windings of
  \<open>s\<close>, its \<open>prev\<close> pointer and \<open>inResult\<close>, and the \<open>overlapped\<close> flags of all segments.
\<close>

theorem mergeOverlapping_idempotent:
  assumes "mergeOverlapping h s op fillRule = Some h'"
  shows "mergeOverlapping h' s op fillRule = Some h'"
proof -
  from assms obtain sv where sv: "get h s = Some sv"
    by (auto simp: mergeOverlapping_def split: option.splits)
  then have s: "s < length h" by (auto simp: get_def split: if_splits)
  show ?thesis
  proof (cases "overlapped sv")
    case True
    with assms sv show ?thesis by (simp add: mergeOverlapping_def)
  next
    case False
    with assms sv obtain h1 pr where loop: "mergeLoop h s (prev sv) = Some (h1, pr)"
      by (auto simp: mergeOverlapping_def split: option.splits)
    from mergeLoop_stops [OF loop]
    have stop1: "case pr of None \<Rightarrow> True | Some p \<Rightarrow> mergeStops h1 s p = Some True" .
    have frame: "length h' = length h1 \<and> (\<forall>a. geom (h' ! a) = geom (h1 ! a))
        \<and> s < length h' \<and> prev (h' ! s) = pr"
    proof (cases "pr = prev (h1 ! s)")
      case True
      with assms sv False loop have "h' = h1" by (simp add: mergeOverlapping_def)
      moreover have "s < length h1" using s mergeLoop_length [OF loop] by simp
      ultimately show ?thesis using True by simp
    next
      case neq: False
      have s1: "s < length h1" using s mergeLoop_length [OF loop] by simp
      from assms sv False loop neq obtain so where
        h': "h' = upd (upd (upd (mergeWindings h1 s pr) s
                    (\<lambda>e. e\<lparr>inResult := InResult e op fillRule\<rparr>)) so
                 (\<lambda>e. e\<lparr>inResult := inResult (upd (mergeWindings h1 s pr) s
                    (\<lambda>e. e\<lparr>inResult := InResult e op fillRule\<rparr>) ! s)\<rparr>)) s
               (\<lambda>e. e\<lparr>prev := pr\<rparr>)"
        by (auto simp: mergeOverlapping_def Let_def split: option.splits if_splits)
      have "length h' = length h1"
        by (simp add: h' mergeWindings_frame)
      moreover have "\<And>a. geom (h' ! a) = geom (h1 ! a)"
        by (simp add: h' geom_upd mergeWindings_frame)
      moreover have "prev (h' ! s) = pr"
        using s1 by (simp add: h' upd_def mergeWindings_frame)
      ultimately show ?thesis using s1 by simp
    qed
    then have len: "length h' = length h1" and g: "\<And>a. geom (h' ! a) = geom (h1 ! a)"
      and s': "s < length h'" and pr: "prev (h' ! s) = pr"
      by auto
    have "case pr of None \<Rightarrow> True | Some p \<Rightarrow> mergeStops h' s p = Some True"
      using stop1 mergeStops_frame [OF len g] by (simp split: option.splits)
    then have "mergeLoop h' s pr = Some (h', pr)"
      by (rule mergeLoop_at_stop)
    then show ?thesis
      using s' pr by (simp add: mergeOverlapping_def get_def)
  qed
qed

theorem mergeOverlapping_idempotent_witness:
  "mergeOverlapping stackedStore 4 opOR NonZero \<noteq> None
   \<and> mergeOverlapping stackedStore 4 opOR NonZero \<noteq> Some stackedStore
   \<and> mergeOverlapping (the (mergeOverlapping stackedStore 4 opOR NonZero)) 4 opOR NonZero
       = mergeOverlapping stackedStore 4 opOR NonZero"
proof -
  have ret: "mergeOverlapping stackedStore 4 opOR NonZero \<noteq> None"
    by code_simp
  have changed: "mergeOverlapping stackedStore 4 opOR NonZero \<noteq> Some stackedStore"
    by code_simp
  from ret obtain h' where first: "mergeOverlapping stackedStore 4 opOR NonZero = Some h'"
    by blast
  from mergeOverlapping_idempotent [OF first] ret changed first show ?thesis
    by simp
qed


subsection \<open>Intersections at a right-endpoint event\<close>

lemma clampToEvent_not_left: "\<not> flt (X (clampToEvent event z)) (X event)"
  by (cases "X event") (auto simp: clampToEvent_def)


end
